theory Spec2Isabelle
  imports Main
begin

section \<open>Common conventions\<close>

text \<open>
  The three components (lock-free queue with hazard pointers, lock-free object pool,
  lock-free block allocator) are embedded call by call: a call runs to completion before
  the next one starts, so \<open>compare_exchange_weak\<close> succeeds exactly when the location
  holds the expected value. The one call that is also given in two steps, for another
  thread to run in between, is the pool's \<open>acquire\<close>. A pointer is an \<open>addr option\<close>, with
  \<open>None\<close> for \<open>nullptr\<close>. What C++ leaves undefined (dereferencing a null pointer or one to no
  live object, indexing a vector out of range) and what it raises (\<open>std::bad_alloc\<close>, a failed
  \<open>assert\<close>) is a value of type \<open>fault\<close>; \<open>operator new\<close> itself is taken to succeed.
  \<open>ContractViolation\<close> marks a call sequence that breaks the callers' contract of the pool
  (a handle released that is not checked out).
\<close>

type_synonym addr = nat

datatype fault =
    NullDeref
  | InvalidPointer
  | AssertionFailed
  | OutOfRange
  | BadAlloc
  | ContractViolation

section \<open>The queue with hazard pointers (\<^verbatim>\<open>13_buggy_code_snippet/fixed_code_lock_free.cpp\<close>)\<close>

definition MAX_THREADS :: nat where
  "MAX_THREADS = 16"

text \<open>\<open>struct Node { T value; std::atomic<Node*> next; }\<close>\<close>

record 'a Node =
  node_value :: 'a
  node_next :: "addr option"

text \<open>
  The state the queue's code reads and writes: the heap of queue nodes with the next
  address \<open>operator new\<close> hands out, the queue's \<open>head\<close> and \<open>tail\<close>, the global table
  \<open>hazard_pointers\<close> (indexed by slot; the code only touches slots below
  \<open>MAX_THREADS\<close>), and the two variables of \<open>get_hazard_index\<close>: the static counter
  \<open>next\<close> and the thread-local \<open>idx\<close> of each thread (\<open>None\<close> for its initial \<open>-1\<close>).
\<close>

record 'a world =
  heap :: "addr \<Rightarrow> 'a Node option"
  brk :: addr
  head :: "addr option"
  tail :: "addr option"
  hazard_pointers :: "nat \<Rightarrow> addr option"
  next_index :: nat
  idx :: "nat \<Rightarrow> nat option"

text \<open>Program start: static storage is zero-initialised, nothing is allocated.\<close>

definition program_start :: "'a world" where
  "program_start =
     \<lparr>heap = (\<lambda>_. None), brk = 0, head = None, tail = None,
      hazard_pointers = (\<lambda>_. None), next_index = 0, idx = (\<lambda>_. None)\<rparr>"

text \<open>\<open>get_hazard_index\<close>, called by thread \<open>t\<close>.\<close>

definition get_hazard_index :: "nat \<Rightarrow> 'a world \<Rightarrow> fault + nat \<times> 'a world" where
  "get_hazard_index t s =
     (case idx s t of
        None \<Rightarrow>
          (let i = next_index s;
               s' = s\<lparr>next_index := next_index s + 1, idx := (idx s)(t := Some i)\<rparr>
           in if i < MAX_THREADS then Inr (i, s') else Inl AssertionFailed)
      | Some i \<Rightarrow> Inr (i, s))"

text \<open>\<open>new Node<T>(v)\<close>: a node with \<open>next = nullptr\<close> at an address not in use.\<close>

definition new_Node :: "'a \<Rightarrow> 'a world \<Rightarrow> addr \<times> 'a world" where
  "new_Node v s =
     (brk s, s\<lparr>heap := (heap s)(brk s \<mapsto> \<lparr>node_value = v, node_next = None\<rparr>),
                brk := brk s + 1\<rparr>)"

text \<open>\<open>p->next.load()\<close> and \<open>p->value\<close>.\<close>

definition load_next :: "'a world \<Rightarrow> addr option \<Rightarrow> fault + addr option" where
  "load_next s p =
     (case p of
        None \<Rightarrow> Inl NullDeref
      | Some a \<Rightarrow> (case heap s a of None \<Rightarrow> Inl InvalidPointer | Some n \<Rightarrow> Inr (node_next n)))"

definition load_value :: "'a world \<Rightarrow> addr option \<Rightarrow> fault + 'a" where
  "load_value s p =
     (case p of
        None \<Rightarrow> Inl NullDeref
      | Some a \<Rightarrow> (case heap s a of None \<Rightarrow> Inl InvalidPointer | Some n \<Rightarrow> Inr (node_value n)))"

text \<open>The three compare-and-swap sites: on \<open>head\<close>, on \<open>tail\<close>, on \<open>p->next\<close>.\<close>

definition cas_head :: "addr option \<Rightarrow> addr option \<Rightarrow> 'a world \<Rightarrow> bool \<times> 'a world" where
  "cas_head expected desired s =
     (if head s = expected then (True, s\<lparr>head := desired\<rparr>) else (False, s))"

definition cas_tail :: "addr option \<Rightarrow> addr option \<Rightarrow> 'a world \<Rightarrow> bool \<times> 'a world" where
  "cas_tail expected desired s =
     (if tail s = expected then (True, s\<lparr>tail := desired\<rparr>) else (False, s))"

definition cas_next ::
  "addr option \<Rightarrow> addr option \<Rightarrow> addr option \<Rightarrow> 'a world \<Rightarrow> fault + bool \<times> 'a world" where
  "cas_next p expected desired s =
     (case p of
        None \<Rightarrow> Inl NullDeref
      | Some a \<Rightarrow>
          (case heap s a of
             None \<Rightarrow> Inl InvalidPointer
           | Some n \<Rightarrow>
               if node_next n = expected
               then Inr (True, s\<lparr>heap := (heap s)(a \<mapsto> n\<lparr>node_next := desired\<rparr>)\<rparr>)
               else Inr (False, s)))"

text \<open>The constructor: one dummy node holding \<open>T()\<close>, here the parameter \<open>dflt\<close>.\<close>

definition LockFreeQueue :: "'a \<Rightarrow> 'a world \<Rightarrow> 'a world" where
  "LockFreeQueue dflt s =
     (let (dummy, s1) = new_Node dflt s
      in s1\<lparr>head := Some dummy, tail := Some dummy\<rparr>)"

text \<open>\<open>delete node\<close>: a no-op on \<open>nullptr\<close>, undefined on memory already freed.\<close>

definition delete_node :: "addr option \<Rightarrow> 'a world \<Rightarrow> fault + 'a world" where
  "delete_node node s =
     (case node of
        None \<Rightarrow> Inr s
      | Some a \<Rightarrow>
          (case heap s a of
             None \<Rightarrow> Inl InvalidPointer
           | Some _ \<Rightarrow> Inr (s\<lparr>heap := (heap s)(a := None)\<rparr>)))"

text \<open>
  \<open>retire_node\<close>: the \<open>for\<close> loop over the slots from \<open>i\<close> on; a slot that holds the
  node ends the call with nothing freed (the \<open>yield\<close> has no effect on the state).
\<close>

function retire_node_from :: "nat \<Rightarrow> addr option \<Rightarrow> 'a world \<Rightarrow> fault + 'a world" where
  "retire_node_from i node s =
     (if i < MAX_THREADS
      then (if hazard_pointers s i = node then Inr s else retire_node_from (i + 1) node s)
      else delete_node node s)"
  by pat_completeness auto
termination
  by (relation "measure (\<lambda>(i, node, s). MAX_THREADS - i)") auto

declare retire_node_from.simps [simp del]

definition retire_node :: "addr option \<Rightarrow> 'a world \<Rightarrow> fault + 'a world" where
  "retire_node node s = retire_node_from 0 node s"

text \<open>
  \<open>enqueue\<close>: the \<open>while (true)\<close> loop. It need not end on every heap (a cycle behind
  \<open>tail\<close> keeps it helping forever), so not returning is the value \<open>None\<close>.
\<close>

partial_function (option) enqueue_loop ::
  "addr option \<Rightarrow> 'a world \<Rightarrow> (fault + 'a world) option" where
  "enqueue_loop new_node s =
     (let last = tail s in
      case load_next s last of
        Inl e \<Rightarrow> Some (Inl e)
      | Inr next \<Rightarrow>
          if last = tail s then
            if next = None then
              (case cas_next last next new_node s of
                 Inl e \<Rightarrow> Some (Inl e)
               | Inr r \<Rightarrow>
                   if fst r then Some (Inr (snd (cas_tail last new_node (snd r))))
                   else enqueue_loop new_node (snd r))
            else enqueue_loop new_node (snd (cas_tail last next s))
          else enqueue_loop new_node s)"

definition enqueue :: "'a \<Rightarrow> 'a world \<Rightarrow> (fault + 'a world) option" where
  "enqueue v s = (let (new_node, s1) = new_Node v s in enqueue_loop (Some new_node) s1)"

text \<open>
  \<open>dequeue\<close>. The parameter \<open>result\<close> is \<open>None\<close> for \<open>nullptr\<close> and \<open>Some x\<close> for a
  pointer to a variable holding \<open>x\<close>; the call returns its \<open>bool\<close>, the variable's final
  content and the new state.
\<close>

partial_function (option) dequeue_loop ::
  "nat \<Rightarrow> 'a option \<Rightarrow> 'a world \<Rightarrow> (fault + bool \<times> 'a option \<times> 'a world) option" where
  "dequeue_loop hidx result s =
     (let first = head s in
      if \<not> hidx < MAX_THREADS then Some (Inl OutOfRange)
      else
        let s1 = s\<lparr>hazard_pointers := (hazard_pointers s)(hidx := first)\<rparr>;
            last = tail s1
        in case load_next s1 first of
             Inl e \<Rightarrow> Some (Inl e)
           | Inr next \<Rightarrow>
               if first = head s1 then
                 if first = last then
                   if next = None then Some (Inr (False, result, s1))
                   else dequeue_loop hidx result (snd (cas_tail last next s1))
                 else
                   (case (if result \<noteq> None \<and> next \<noteq> None
                          then map_sum id Some (load_value s1 next) else Inr result) of
                      Inl e \<Rightarrow> Some (Inl e)
                    | Inr result' \<Rightarrow>
                        let r = cas_head first next s1 in
                        if fst r then
                          (case retire_node first (snd r) of
                             Inl e \<Rightarrow> Some (Inl e)
                           | Inr s3 \<Rightarrow> Some (Inr (True, result', s3)))
                        else dequeue_loop hidx result' (snd r))
               else dequeue_loop hidx result s1)"

definition dequeue ::
  "nat \<Rightarrow> 'a option \<Rightarrow> 'a world \<Rightarrow> (fault + bool \<times> 'a option \<times> 'a world) option" where
  "dequeue t result s =
     (case get_hazard_index t s of
        Inl e \<Rightarrow> Some (Inl e)
      | Inr (hidx, s0) \<Rightarrow> dequeue_loop hidx result s0)"

text \<open>
  Any sequential use of one queue: a list of calls, each an \<open>enqueue\<close> of a value or a
  \<open>dequeue\<close> by a thread, whose \<open>result\<close> argument points to a variable with the
  given content (or is \<open>nullptr\<close>). \<open>run\<close> makes the calls in order and returns, for
  every \<open>dequeue\<close>, the \<open>bool\<close> it returned and the variable's content after the call,
  together with the final state.
\<close>

datatype 'a queue_call = Enqueue 'a | Dequeue nat "'a option"

fun run ::
  "'a queue_call list \<Rightarrow> 'a world \<Rightarrow> (fault + (bool \<times> 'a option) list \<times> 'a world) option" where
  "run [] s = Some (Inr ([], s))"
| "run (Enqueue v # cs) s =
     (case enqueue v s of
        None \<Rightarrow> None
      | Some (Inl e) \<Rightarrow> Some (Inl e)
      | Some (Inr s') \<Rightarrow> run cs s')"
| "run (Dequeue t result # cs) s =
     (case dequeue t result s of
        None \<Rightarrow> None
      | Some (Inl e) \<Rightarrow> Some (Inl e)
      | Some (Inr (ok, r, s')) \<Rightarrow>
          (case run cs s' of
             None \<Rightarrow> None
           | Some (Inl e) \<Rightarrow> Some (Inl e)
           | Some (Inr (outs, s'')) \<Rightarrow> Some (Inr ((ok, r) # outs, s''))))"

text \<open>The threads that call \<open>dequeue\<close>, and so \<open>get_hazard_index\<close>.\<close>

fun callers :: "'a queue_call list \<Rightarrow> nat list" where
  "callers [] = []"
| "callers (Enqueue v # cs) = callers cs"
| "callers (Dequeue t result # cs) = t # callers cs"

text \<open>
  What a first-in first-out queue holding \<open>q\<close> answers to the same calls: the
  specification \<open>run\<close> is compared with.
\<close>

fun fifo_spec :: "'a queue_call list \<Rightarrow> 'a list \<Rightarrow> (bool \<times> 'a option) list" where
  "fifo_spec [] q = []"
| "fifo_spec (Enqueue v # cs) q = fifo_spec cs (q @ [v])"
| "fifo_spec (Dequeue t result # cs) q =
     (case q of
        [] \<Rightarrow> (False, result) # fifo_spec cs []
      | x # q' \<Rightarrow> (True, if result = None then None else Some x) # fifo_spec cs q')"

text \<open>
  Observations of a state: the emptiness test \<open>dequeue\<close> makes, the content of the
  hazard-pointer table, and the addresses of the nodes that are allocated.
\<close>

definition structurally_empty :: "'a world \<Rightarrow> bool" where
  "structurally_empty s = (head s = tail s \<and> load_next s (head s) = Inr None)"

definition hazards :: "'a world \<Rightarrow> addr option list" where
  "hazards s = map (hazard_pointers s) [0..<MAX_THREADS]"

definition allocated :: "'a world \<Rightarrow> addr list" where
  "allocated s = filter (\<lambda>a. heap s a \<noteq> None) [0..<brk s]"

text \<open>
  What a run leaves behind: the results of its \<open>dequeue\<close> calls with the hazard-pointer
  table, and the allocated nodes with \<open>head\<close> and the table.
\<close>

definition slots_after ::
  "'a queue_call list \<Rightarrow> 'a world \<Rightarrow> (fault + (bool \<times> 'a option) list \<times> addr option list) option" where
  "slots_after cs s = map_option (map_sum id (map_prod id hazards)) (run cs s)"

definition footprint :: "'a world \<Rightarrow> addr list \<times> addr option \<times> addr option list" where
  "footprint s = (allocated s, head s, hazards s)"

definition footprint_after ::
  "'a queue_call list \<Rightarrow> 'a world \<Rightarrow> (fault + addr list \<times> addr option \<times> addr option list) option" where
  "footprint_after cs s = map_option (map_sum id (footprint \<circ> snd)) (run cs s)"

text \<open>The state a run leaves, when it returns and nothing faults.\<close>

definition state_after :: "'a queue_call list \<Rightarrow> 'a world \<Rightarrow> 'a world" where
  "state_after cs s = snd (projr (the (run cs s)))"

section \<open>The object pool (\<^verbatim>\<open>09_objectPooling/objectPoolLockFree.h\<close>)\<close>

text \<open>
  \<open>size_t\<close> has 64 bits; a \<open>size_t\<close> is a natural number below \<open>size_t_mod\<close> and
  subtraction wraps.
\<close>

definition size_t_mod :: nat where
  "size_t_mod = 2 ^ 64"

definition size_t_sub :: "nat \<Rightarrow> nat \<Rightarrow> nat" where
  "size_t_sub a b = (a + size_t_mod - b mod size_t_mod) mod size_t_mod"

text \<open>
  The pool's members: \<open>storage_\<close> is \<open>pool_storage\<close>, a vector of owning pointers
  (\<open>None\<close> is an empty \<open>unique_ptr\<close>); \<open>pool_nodes\<close> is the memory holding the
  \<open>Node\<close> objects, mapping the address of a live node to its \<open>next\<close> field; \<open>head_\<close>
  is \<open>pool_head\<close>; \<open>acquire_addresses_\<close> is \<open>acquire_addresses\<close>. A handle is the
  address of its node: \<open>&node->obj\<close> and the offset subtraction in \<open>release\<close> are
  inverse to each other. The payload \<open>obj\<close> is not part of the model, no operation of
  the pool reads or writes it; nor are the diagnostics (the \<open>std::cout\<close> lines,
  \<open>exhaust_count_\<close>, and \<open>release_addresses_\<close>, which is never written).
\<close>

record pool =
  pool_storage :: "addr option list"
  pool_nodes :: "addr \<Rightarrow> addr option option"
  pool_head :: "addr option"
  acquire_addresses :: "addr set"

text \<open>\<open>v[i]\<close> on a vector, and \<open>ptr->next = nx\<close>.\<close>

definition vec_at :: "'b list \<Rightarrow> nat \<Rightarrow> fault + 'b" where
  "vec_at xs i = (if i < length xs then Inr (xs ! i) else Inl OutOfRange)"

definition set_next :: "addr option \<Rightarrow> addr option \<Rightarrow> pool \<Rightarrow> fault + pool" where
  "set_next ptr nx p =
     (case ptr of
        None \<Rightarrow> Inl NullDeref
      | Some a \<Rightarrow>
          (case pool_nodes p a of
             None \<Rightarrow> Inl InvalidPointer
           | Some _ \<Rightarrow> Inr (p\<lparr>pool_nodes := (pool_nodes p)(a \<mapsto> nx)\<rparr>)))"

text \<open>
  The constructor's first loop, \<open>storage_[i] = std::make_unique<Node>()\<close>; the node made
  for slot \<open>i\<close> gets the address \<open>i\<close>, and its \<open>next\<close> is \<open>nullptr\<close>.
\<close>

function make_nodes :: "nat \<Rightarrow> nat \<Rightarrow> pool \<Rightarrow> fault + pool" where
  "make_nodes i sz p =
     (if i < sz then
        (if i < length (pool_storage p)
         then make_nodes (i + 1) sz
                (p\<lparr>pool_storage := (pool_storage p)[i := Some i],
                   pool_nodes := (pool_nodes p)(i \<mapsto> None)\<rparr>)
         else Inl OutOfRange)
      else Inr p)"
  by pat_completeness auto
termination
  by (relation "measure (\<lambda>(i, sz, p). sz - i)") auto

declare make_nodes.simps [simp del]

text \<open>
  The second loop, \<open>storage_[i]->next = storage_[i+1].get()\<close> for \<open>i < size - 1\<close>; the
  bound is computed by the caller. The right-hand side of the assignment is evaluated
  first.
\<close>

function link_nodes :: "nat \<Rightarrow> nat \<Rightarrow> pool \<Rightarrow> fault + pool" where
  "link_nodes i bound p =
     (if i < bound then
        (case vec_at (pool_storage p) (i + 1) of
           Inl e \<Rightarrow> Inl e
         | Inr nx \<Rightarrow>
             (case vec_at (pool_storage p) i of
                Inl e \<Rightarrow> Inl e
              | Inr ptr \<Rightarrow>
                  (case set_next ptr nx p of
                     Inl e \<Rightarrow> Inl e
                   | Inr p' \<Rightarrow> link_nodes (i + 1) bound p')))
      else Inr p)"
  by pat_completeness auto
termination
  by (relation "measure (\<lambda>(i, bound, p). bound - i)") auto

declare link_nodes.simps [simp del]

definition LockFreeObjectPool :: "nat \<Rightarrow> fault + pool" where
  "LockFreeObjectPool sz =
     (let p0 = \<lparr>pool_storage = replicate sz None, pool_nodes = (\<lambda>_. None),
                 pool_head = None, acquire_addresses = {}\<rparr>
      in case make_nodes 0 sz p0 of
           Inl e \<Rightarrow> Inl e
         | Inr p1 \<Rightarrow>
             (case link_nodes 0 (size_t_sub sz 1) p1 of
                Inl e \<Rightarrow> Inl e
              | Inr p2 \<Rightarrow>
                  (case vec_at (pool_storage p2) (size_t_sub sz 1) of
                     Inl e \<Rightarrow> Inl e
                   | Inr ptr \<Rightarrow>
                       (case set_next ptr None p2 of
                          Inl e \<Rightarrow> Inl e
                        | Inr p3 \<Rightarrow>
                            (case vec_at (pool_storage p3) 0 of
                               Inl e \<Rightarrow> Inl e
                             | Inr h \<Rightarrow> Inr (p3\<lparr>pool_head := h\<rparr>))))))"

text \<open>
  \<open>acquire\<close>: the \<open>while (node)\<close> loop. A failed exchange reloads \<open>node\<close> from
  \<open>head_\<close>. The result is the handle, \<open>None\<close> for the null \<open>shared_ptr\<close> of an
  exhausted pool.
\<close>

function acquire_loop :: "addr option \<Rightarrow> pool \<Rightarrow> fault + addr option \<times> pool" where
  "acquire_loop node p =
     (case node of
        None \<Rightarrow> Inr (None, p)
      | Some a \<Rightarrow>
          (case pool_nodes p a of
             None \<Rightarrow> Inl InvalidPointer
           | Some next \<Rightarrow>
               if pool_head p = node
               then Inr (Some a,
                      p\<lparr>pool_head := next,
                        acquire_addresses :=
                          (if a \<notin> acquire_addresses p then insert a (acquire_addresses p)
                           else acquire_addresses p)\<rparr>)
               else acquire_loop (pool_head p) p))"
  by pat_completeness auto
termination
  by (relation "measure (\<lambda>(node, p). if pool_head p = node then 0 else 1)") auto

declare acquire_loop.simps [simp del]

definition acquire :: "pool \<Rightarrow> fault + addr option \<times> pool" where
  "acquire p = acquire_loop (pool_head p) p"

text \<open>
  \<open>acquire\<close> in the two steps between which another thread can run: \<open>acquire_read\<close> is
  lines 43 to 45, the load of \<open>head_\<close> into \<open>node\<close> and, for a non-null \<open>node\<close>, the read
  of \<open>node->next\<close>; \<open>acquire_cas\<close> is line 46 onwards, the exchange with the \<open>node\<close> and
  \<open>next\<close> read before and, when it fails, the loop from the reloaded \<open>node\<close>.
\<close>

definition acquire_read :: "pool \<Rightarrow> fault + addr option \<times> addr option" where
  "acquire_read p =
     (case pool_head p of
        None \<Rightarrow> Inr (None, None)
      | Some a \<Rightarrow>
          (case pool_nodes p a of
             None \<Rightarrow> Inl InvalidPointer
           | Some next \<Rightarrow> Inr (Some a, next)))"

definition acquire_cas ::
  "addr option \<Rightarrow> addr option \<Rightarrow> pool \<Rightarrow> fault + addr option \<times> pool" where
  "acquire_cas node next p =
     (case node of
        None \<Rightarrow> Inr (None, p)
      | Some a \<Rightarrow>
          if pool_head p = node
          then Inr (Some a,
                 p\<lparr>pool_head := next,
                   acquire_addresses :=
                     (if a \<notin> acquire_addresses p then insert a (acquire_addresses p)
                      else acquire_addresses p)\<rparr>)
          else acquire_loop (pool_head p) p)"

text \<open>\<open>release\<close>, the deleter of a handle: the \<open>do ... while\<close> loop.\<close>

function release_loop :: "addr option \<Rightarrow> addr \<Rightarrow> pool \<Rightarrow> fault + pool" where
  "release_loop oldHead node p =
     (case set_next (Some node) oldHead p of
        Inl e \<Rightarrow> Inl e
      | Inr p1 \<Rightarrow>
          if pool_head p1 = oldHead then Inr (p1\<lparr>pool_head := Some node\<rparr>)
          else release_loop (pool_head p1) node p1)"
  by pat_completeness auto
termination
  by (relation "measure (\<lambda>(oldHead, node, p). if pool_head p = oldHead then 0 else 1)")
     (auto simp: set_next_def split: option.splits)

declare release_loop.simps [simp del]

definition release :: "addr \<Rightarrow> pool \<Rightarrow> fault + pool" where
  "release obj p = release_loop (pool_head p) obj p"

definition capacity :: "pool \<Rightarrow> nat" where
  "capacity p = length (pool_storage p)"

text \<open>
  \<open>approximateAvailable\<close>: the traversal from \<open>head_\<close>, which does not end on a cyclic
  list. \<open>free_nodes_from\<close> is the same traversal, collecting the nodes it visits
  instead of counting them.
\<close>

partial_function (option) count_from :: "addr option \<Rightarrow> nat \<Rightarrow> pool \<Rightarrow> (fault + nat) option" where
  "count_from cur count p =
     (case cur of
        None \<Rightarrow> Some (Inr count)
      | Some a \<Rightarrow>
          (case pool_nodes p a of
             None \<Rightarrow> Some (Inl InvalidPointer)
           | Some nx \<Rightarrow> count_from nx (count + 1) p))"

definition approximateAvailable :: "pool \<Rightarrow> (fault + nat) option" where
  "approximateAvailable p = count_from (pool_head p) 0 p"

partial_function (option) free_nodes_from ::
  "addr option \<Rightarrow> addr list \<Rightarrow> pool \<Rightarrow> (fault + addr list) option" where
  "free_nodes_from cur seen p =
     (case cur of
        None \<Rightarrow> Some (Inr seen)
      | Some a \<Rightarrow>
          (case pool_nodes p a of
             None \<Rightarrow> Some (Inl InvalidPointer)
           | Some nx \<Rightarrow> free_nodes_from nx (seen @ [a]) p))"

definition free_nodes :: "pool \<Rightarrow> (fault + addr list) option" where
  "free_nodes p = free_nodes_from (pool_head p) [] p"

text \<open>The nodes the arena owns.\<close>

definition arena :: "pool \<Rightarrow> addr set" where
  "arena p = {a. Some a \<in> set (pool_storage p)}"

text \<open>
  Any sequential use of one pool, with the set of handles the callers hold. \<open>release\<close>
  is private and runs as the deleter of a live handle only, so a \<open>Release\<close> of an address
  that is not checked out is no call the pool can receive.
\<close>

datatype pool_call = Acquire | Release addr

fun pool_run :: "pool_call list \<Rightarrow> pool \<times> addr set \<Rightarrow> fault + pool \<times> addr set" where
  "pool_run [] st = Inr st"
| "pool_run (Acquire # cs) (p, out) =
     (case acquire p of
        Inl e \<Rightarrow> Inl e
      | Inr (None, p') \<Rightarrow> pool_run cs (p', out)
      | Inr (Some a, p') \<Rightarrow> pool_run cs (p', insert a out))"
| "pool_run (Release a # cs) (p, out) =
     (if a \<in> out
      then (case release a p of
              Inl e \<Rightarrow> Inl e
            | Inr p' \<Rightarrow> pool_run cs (p', out - {a}))
      else Inl ContractViolation)"

text \<open>
  Two threads on a new pool of capacity \<open>n\<close>: thread A starts an \<open>acquire\<close> and has read
  \<open>node\<close> and \<open>next\<close>; thread B makes the calls \<open>cs\<close>, each to completion; then thread A's
  exchange runs. The result is A's handle, the nodes then reachable from \<open>head_\<close>, and
  the handles B holds.
\<close>

definition interleaved_acquire ::
  "nat \<Rightarrow> pool_call list \<Rightarrow> fault + addr option \<times> (fault + addr list) option \<times> addr set" where
  "interleaved_acquire n cs =
     (case LockFreeObjectPool n of
        Inl e \<Rightarrow> Inl e
      | Inr p0 \<Rightarrow>
          (case acquire_read p0 of
             Inl e \<Rightarrow> Inl e
           | Inr (node, next) \<Rightarrow>
               (case pool_run cs (p0, {}) of
                  Inl e \<Rightarrow> Inl e
                | Inr (p1, out) \<Rightarrow>
                    (case acquire_cas node next p1 of
                       Inl e \<Rightarrow> Inl e
                     | Inr (h, p2) \<Rightarrow> Inr (h, free_nodes p2, out)))))"

text \<open>The pool that a run on a new pool of capacity \<open>n\<close> leaves, when nothing faults.\<close>

definition pool_after :: "nat \<Rightarrow> pool_call list \<Rightarrow> pool" where
  "pool_after n cs = fst (projr (pool_run cs (projr (LockFreeObjectPool n), {})))"

section \<open>The block allocator (\<^verbatim>\<open>09_objectPooling/poolAllocator.h\<close>)\<close>

text \<open>
  \<open>sizeof(Node)\<close> is the size of one pointer. A pointer into \<open>buffer_\<close> is a byte offset
  from its start; \<open>lfp_bytes\<close> is the size \<open>operator new\<close> was asked for, and an access
  to a \<open>Node\<close> at an offset is inside the buffer when the whole node is.
  \<open>lfp_buffer\<close> gives the \<open>next\<close> field last stored at an offset; \<open>head_\<close>,
  \<open>blockSize_\<close> and \<open>capacity_\<close> are \<open>lfp_head\<close>, \<open>lfp_blockSize\<close> and
  \<open>lfp_capacity\<close>.
\<close>

definition sizeof_Node :: nat where
  "sizeof_Node = 8"

record lf_pool =
  lfp_head :: "addr option"
  lfp_buffer :: "addr \<Rightarrow> addr option"
  lfp_bytes :: nat
  lfp_blockSize :: nat
  lfp_capacity :: nat

definition store_next :: "addr \<Rightarrow> addr option \<Rightarrow> lf_pool \<Rightarrow> fault + lf_pool" where
  "store_next node nx p =
     (if node + sizeof_Node \<le> lfp_bytes p
      then Inr (p\<lparr>lfp_buffer := (lfp_buffer p)(node := nx)\<rparr>)
      else Inl OutOfRange)"

definition fetch_next :: "addr \<Rightarrow> lf_pool \<Rightarrow> fault + addr option" where
  "fetch_next node p =
     (if node + sizeof_Node \<le> lfp_bytes p then Inr (lfp_buffer p node) else Inl OutOfRange)"

text \<open>The constructor's loop threading the blocks, \<open>prev\<close> being the block linked last.\<close>

function link_blocks :: "nat \<Rightarrow> addr option \<Rightarrow> lf_pool \<Rightarrow> fault + addr option \<times> lf_pool" where
  "link_blocks i prev p =
     (if i < lfp_capacity p then
        (let node = (i * lfp_blockSize p) mod size_t_mod in
         case store_next node prev p of
           Inl e \<Rightarrow> Inl e
         | Inr p' \<Rightarrow> link_blocks (i + 1) (Some node) p')
      else Inr (prev, p))"
  by pat_completeness auto
termination
  by (relation "measure (\<lambda>(i, prev, p). lfp_capacity p - i)")
     (auto simp: store_next_def split: if_splits)

declare link_blocks.simps [simp del]

definition LockFreePool :: "nat \<Rightarrow> nat \<Rightarrow> fault + lf_pool" where
  "LockFreePool blockSize cap =
     (let bs = (if blockSize < sizeof_Node then sizeof_Node else blockSize);
          p0 = \<lparr>lfp_head = None, lfp_buffer = (\<lambda>_. None),
                 lfp_bytes = (bs * cap) mod size_t_mod, lfp_blockSize = bs,
                 lfp_capacity = cap\<rparr>
      in case link_blocks 0 None p0 of
           Inl e \<Rightarrow> Inl e
         | Inr (prev, p1) \<Rightarrow> Inr (p1\<lparr>lfp_head := prev\<rparr>))"

text \<open>\<open>allocate\<close>: the block's offset, or \<open>throw std::bad_alloc()\<close>.\<close>

function allocate_loop :: "addr option \<Rightarrow> lf_pool \<Rightarrow> fault + addr \<times> lf_pool" where
  "allocate_loop oldHead p =
     (case oldHead of
        None \<Rightarrow> Inl BadAlloc
      | Some a \<Rightarrow>
          (case fetch_next a p of
             Inl e \<Rightarrow> Inl e
           | Inr next \<Rightarrow>
               if lfp_head p = oldHead then Inr (a, p\<lparr>lfp_head := next\<rparr>)
               else allocate_loop (lfp_head p) p))"
  by pat_completeness auto
termination
  by (relation "measure (\<lambda>(oldHead, p). if lfp_head p = oldHead then 0 else 1)") auto

declare allocate_loop.simps [simp del]

definition allocate :: "lf_pool \<Rightarrow> fault + addr \<times> lf_pool" where
  "allocate p = allocate_loop (lfp_head p) p"

function deallocate_loop :: "addr option \<Rightarrow> addr \<Rightarrow> lf_pool \<Rightarrow> fault + lf_pool" where
  "deallocate_loop oldHead node p =
     (case store_next node oldHead p of
        Inl e \<Rightarrow> Inl e
      | Inr p1 \<Rightarrow>
          if lfp_head p1 = oldHead then Inr (p1\<lparr>lfp_head := Some node\<rparr>)
          else deallocate_loop (lfp_head p1) node p1)"
  by pat_completeness auto
termination
  by (relation "measure (\<lambda>(oldHead, node, p). if lfp_head p = oldHead then 0 else 1)")
     (auto simp: store_next_def split: if_splits)

declare deallocate_loop.simps [simp del]

definition deallocate :: "addr option \<Rightarrow> lf_pool \<Rightarrow> fault + lf_pool" where
  "deallocate ptr p =
     (case ptr of
        None \<Rightarrow> Inl NullDeref
      | Some node \<Rightarrow> deallocate_loop (lfp_head p) node p)"

text \<open>\<open>k\<close> calls of \<open>allocate\<close> in a row, with the blocks they return.\<close>

fun allocate_times :: "nat \<Rightarrow> lf_pool \<Rightarrow> fault + addr list \<times> lf_pool" where
  "allocate_times 0 p = Inr ([], p)"
| "allocate_times (Suc k) p =
     (case allocate p of
        Inl e \<Rightarrow> Inl e
      | Inr (b, p') \<Rightarrow>
          (case allocate_times k p' of
             Inl e \<Rightarrow> Inl e
           | Inr (bs, p'') \<Rightarrow> Inr (b # bs, p'')))"

section \<open>Invariants used in the proofs\<close>

text \<open>
  \<open>chain h p as\<close>: following \<open>next\<close> from \<open>p\<close> visits exactly the nodes \<open>as\<close>, all
  allocated, and then reaches \<open>nullptr\<close>.
\<close>

primrec chain :: "(addr \<Rightarrow> 'a Node option) \<Rightarrow> addr option \<Rightarrow> addr list \<Rightarrow> bool" where
  "chain h p [] = (p = None)"
| "chain h p (a # as) =
     (p = Some a \<and> (case h a of None \<Rightarrow> False | Some n \<Rightarrow> chain h (node_next n) as))"

definition vals :: "(addr \<Rightarrow> 'a Node option) \<Rightarrow> addr list \<Rightarrow> 'a list" where
  "vals h as = map (\<lambda>a. node_value (the (h a))) as"

text \<open>
  The queue is well formed with node list \<open>as\<close>: the chain from \<open>head\<close> is \<open>as\<close>, it
  starts with the dummy, \<open>tail\<close> is its last node, the allocated addresses are those
  below \<open>brk\<close>, and every slot index handed out is below \<open>MAX_THREADS\<close>.
\<close>

definition qabs :: "'a world \<Rightarrow> addr list \<Rightarrow> bool" where
  "qabs s as =
     (as \<noteq> [] \<and> distinct as \<and> chain (heap s) (head s) as \<and> tail s = Some (last as)
      \<and> (\<forall>a. heap s a \<noteq> None \<longleftrightarrow> a < brk s)
      \<and> (\<forall>t i. idx s t = Some i \<longrightarrow> i < MAX_THREADS))"

text \<open>\<open>R\<close> is the set of threads that have a slot, and \<open>next\<close> counts them.\<close>

definition reg_inv :: "'a world \<Rightarrow> nat set \<Rightarrow> bool" where
  "reg_inv s R = (finite R \<and> (\<forall>t. idx s t \<noteq> None \<longleftrightarrow> t \<in> R) \<and> next_index s = card R)"

definition slot_free :: "nat \<Rightarrow> 'a world \<Rightarrow> bool" where
  "slot_free t s = (idx s t \<noteq> None \<or> next_index s < MAX_THREADS)"

text \<open>The same for the pool's free list, and the pool's partition invariant.\<close>

primrec pchain :: "(addr \<Rightarrow> addr option option) \<Rightarrow> addr option \<Rightarrow> addr list \<Rightarrow> bool" where
  "pchain h p [] = (p = None)"
| "pchain h p (a # as) =
     (p = Some a \<and> (case h a of None \<Rightarrow> False | Some nx \<Rightarrow> pchain h nx as))"

definition pinv :: "nat \<Rightarrow> pool \<Rightarrow> addr set \<Rightarrow> addr list \<Rightarrow> bool" where
  "pinv n p out fl =
     (pchain (pool_nodes p) (pool_head p) fl \<and> distinct fl \<and> set fl \<inter> out = {}
      \<and> set fl \<union> out = {0..<n} \<and> (\<forall>a<n. pool_nodes p a \<noteq> None)
      \<and> pool_storage p = map Some [0..<n])"

declare enqueue_loop.simps [code] dequeue_loop.simps [code]
declare count_from.simps [code] free_nodes_from.simps [code]

section \<open>Reclamation\<close>

lemma retire_node_from_scan:
  "retire_node_from i node s =
     (if \<exists>j. i \<le> j \<and> j < MAX_THREADS \<and> hazard_pointers s j = node
      then Inr s else delete_node node s)"
proof (induction i node s rule: retire_node_from.induct)
  case (1 i node s)
  show ?case
  proof (cases "i < MAX_THREADS")
    case False
    then show ?thesis
      by (subst retire_node_from.simps) auto
  next
    case inside: True
    show ?thesis
    proof (cases "hazard_pointers s i = node")
      case True
      with inside show ?thesis
        by (subst retire_node_from.simps) auto
    next
      case False
      have "(\<exists>j. i \<le> j \<and> j < MAX_THREADS \<and> hazard_pointers s j = node)
            = (\<exists>j. i + 1 \<le> j \<and> j < MAX_THREADS \<and> hazard_pointers s j = node)"
        using False by (metis Suc_eq_plus1 Suc_leD Suc_leI le_neq_implies_less)
      with inside False "1.IH" show ?thesis
        by (subst retire_node_from.simps) simp
    qed
  qed
qed

text \<open>
  C1. For every hazard-pointer table, \<open>retire_node\<close> frees the node only when no slot of
  \<open>hazard_pointers\<close> holds its address; when some slot does, it defers: it returns with
  the state, and so the heap, unchanged.
\<close>

theorem retire_node_frees_only_unhazarded:
  "retire_node node s =
     (if \<exists>j < MAX_THREADS. hazard_pointers s j = node then Inr s else delete_node node s)"
  unfolding retire_node_def by (subst retire_node_from_scan) simp

section \<open>The queue keeps its shape\<close>

lemma chain_frame: "a \<notin> set as \<Longrightarrow> chain (h(a := x)) p as = chain h p as"
  by (induction as arbitrary: p) (auto split: option.splits)

lemma chain_allocated: "chain h p as \<Longrightarrow> a \<in> set as \<Longrightarrow> h a \<noteq> None"
  by (induction as arbitrary: p) (auto split: option.splits)

lemma chain_last:
  "chain h p as \<Longrightarrow> as \<noteq> [] \<Longrightarrow> \<exists>n. h (last as) = Some n \<and> node_next n = None"
  by (induction as arbitrary: p) (auto split: option.splits)

lemma chain_snoc:
  "chain h p as \<Longrightarrow> as \<noteq> [] \<Longrightarrow> distinct as \<Longrightarrow> h (last as) = Some n \<Longrightarrow> b \<notin> set as \<Longrightarrow>
   h b = None \<Longrightarrow>
   chain (h(b \<mapsto> \<lparr>node_value = v, node_next = None\<rparr>, last as \<mapsto> n\<lparr>node_next := Some b\<rparr>))
     p (as @ [b])"
proof (induction as arbitrary: p)
  case Nil
  then show ?case by simp
next
  case (Cons a as)
  show ?case
  proof (cases "as = []")
    case True
    with Cons.prems show ?thesis by (auto split: option.splits)
  next
    case False
    with Cons.prems obtain m where m: "h a = Some m" "chain h (node_next m) as" "p = Some a"
      by (auto split: option.splits)
    from Cons.prems False have ne: "last as \<noteq> a" "a \<noteq> b" by auto
    from Cons.prems False have rest: "distinct as" "h (last as) = Some n" "b \<notin> set as"
      by auto
    define H where "H = h(b \<mapsto> \<lparr>node_value = v, node_next = None\<rparr>,
                   last as \<mapsto> n\<lparr>node_next := Some b\<rparr>)"
    from Cons.IH [OF m(2) False rest \<open>h b = None\<close>]
    have "chain H (node_next m) (as @ [b])" unfolding H_def .
    moreover have "H a = Some m" using ne m by (simp add: H_def)
    ultimately have "chain H p ((a # as) @ [b])" using m by simp
    then show ?thesis unfolding H_def last_ConsR [OF False] .
  qed
qed

lemma vals_update:
  assumes same: "\<forall>a \<in> set as. map_option node_value (h' a) = map_option node_value (h a)"
  shows "vals h' as = vals h as"
proof -
  have "node_value (the (h' a)) = node_value (the (h a))" if "a \<in> set as" for a
    using same that by (cases "h a"; cases "h' a") (auto dest: bspec)
  then show ?thesis by (simp add: vals_def)
qed

lemma qabs_LockFreeQueue: "qabs (LockFreeQueue d program_start) [0]"
  by (simp add: qabs_def LockFreeQueue_def new_Node_def program_start_def)

lemma reg_inv_LockFreeQueue: "reg_inv (LockFreeQueue d program_start) {}"
  by (simp add: reg_inv_def LockFreeQueue_def new_Node_def program_start_def)

lemma qabs_hazard [simp]: "qabs (s\<lparr>hazard_pointers := f\<rparr>) as = qabs s as"
  by (simp add: qabs_def)

lemma reg_inv_hazard [simp]: "reg_inv (s\<lparr>hazard_pointers := f\<rparr>) R = reg_inv s R"
  by (simp add: reg_inv_def)

lemma reg_inv_head [simp]: "reg_inv (s\<lparr>head := f\<rparr>) R = reg_inv s R"
  by (simp add: reg_inv_def)

text \<open>One \<open>enqueue\<close> in a well-formed state links a new last node.\<close>

lemma enqueue_qabs:
  assumes inv: "qabs s as"
  defines "b \<equiv> brk s"
  shows "\<exists>s'. enqueue v s = Some (Inr s') \<and> qabs s' (as @ [b])
           \<and> vals (heap s') (tl (as @ [b])) = vals (heap s) (tl as) @ [v]
           \<and> hazard_pointers s' = hazard_pointers s \<and> idx s' = idx s
           \<and> next_index s' = next_index s \<and> head s' = head s"
proof -
  from inv have ne: "as \<noteq> []" and dist: "distinct as"
    and ch: "chain (heap s) (head s) as" and tl: "tail s = Some (last as)"
    and dom: "\<And>a. heap s a \<noteq> None \<longleftrightarrow> a < brk s"
    and reg: "\<And>t i. idx s t = Some i \<Longrightarrow> i < MAX_THREADS"
    by (auto simp: qabs_def)
  from chain_last [OF ch ne] obtain n where n: "heap s (last as) = Some n" "node_next n = None"
    by blast
  have fresh: "heap s b = None" using dom [of b] by (simp add: b_def)
  have notin: "b \<notin> set as" using chain_allocated [OF ch] fresh by blast
  have lb: "last as \<noteq> b" using n fresh by auto
  define H where "H = (heap s)(b \<mapsto> \<lparr>node_value = v, node_next = None\<rparr>,
                              last as \<mapsto> n\<lparr>node_next := Some b\<rparr>)"
  define s' where "s' = s\<lparr>heap := H, brk := Suc b, tail := Some b\<rparr>"
  have run: "enqueue v s = Some (Inr s')"
    unfolding enqueue_def new_Node_def
    apply (simp add: Let_def b_def [symmetric])
    apply (subst enqueue_loop.simps)
    using n lb tl
    apply (simp add: Let_def load_next_def cas_next_def cas_tail_def s'_def H_def)
    done
  have ch': "chain H (head s) (as @ [b])"
    unfolding H_def by (rule chain_snoc [OF ch ne dist n(1) notin fresh])
  have dom': "\<And>a. H a \<noteq> None \<longleftrightarrow> a < Suc b"
    using dom n by (auto simp: H_def b_def less_Suc_eq)
  have inv': "qabs s' (as @ [b])"
    using ne dist notin ch' dom' reg by (simp add: qabs_def s'_def)
  have "vals H (tl as) = vals (heap s) (tl as)"
  proof (rule vals_update, rule ballI)
    fix a assume "a \<in> set (tl as)"
    then have "a \<in> set as" by (rule list.set_sel(2) [OF ne])
    with notin have "a \<noteq> b" by auto
    then show "map_option node_value (H a) = map_option node_value (heap s a)"
      using n by (simp add: H_def)
  qed
  moreover have "vals H [b] = [v]"
    using lb by (simp add: vals_def H_def)
  ultimately have v': "vals H (tl (as @ [b])) = vals (heap s) (tl as) @ [v]"
    using ne by (simp add: vals_def)
  show ?thesis
    using run inv' v' by (intro exI [of _ s']) (simp add: s'_def b_def)
qed

text \<open>One \<open>dequeue\<close> in a well-formed state, by a thread that has or can get a slot.\<close>

lemma retire_node_hazarded:
  "i < MAX_THREADS \<Longrightarrow> hazard_pointers s i = node \<Longrightarrow> retire_node node s = Inr s"
  unfolding retire_node_def by (subst retire_node_from_scan) auto

lemma dequeue_loop_empty:
  assumes inv: "qabs s [a]" and i: "i < MAX_THREADS"
  shows "dequeue_loop i r s
         = Some (Inr (False, r, s\<lparr>hazard_pointers := (hazard_pointers s)(i := Some a)\<rparr>))"
proof -
  from inv have hd: "head s = Some a" and tl: "tail s = Some a"
    by (auto simp: qabs_def split: option.splits)
  from inv obtain n where n: "heap s a = Some n" "node_next n = None"
    by (auto simp: qabs_def split: option.splits)
  show ?thesis
    apply (subst dequeue_loop.simps)
    using hd tl n i
    apply (simp add: Let_def load_next_def)
    done
qed

lemma dequeue_loop_nonempty:
  assumes inv: "qabs s (a # b # bs)" and i: "i < MAX_THREADS"
  defines "s' \<equiv> s\<lparr>hazard_pointers := (hazard_pointers s)(i := Some a), head := Some b\<rparr>"
  shows "dequeue_loop i r s
         = Some (Inr (True, (if r = None then None else Some (node_value (the (heap s b)))), s'))"
    and "qabs s' (b # bs)"
proof -
  from inv have hd: "head s = Some a" and tl: "tail s = Some (last (b # bs))"
    and dist: "distinct (a # b # bs)"
    by (auto simp: qabs_def split: option.splits)
  from inv obtain n m where n: "heap s a = Some n" "node_next n = Some b"
      and m: "heap s b = Some m" "chain (heap s) (node_next m) bs"
    by (auto simp: qabs_def split: option.splits)
  from dist have ne: "last (b # bs) \<noteq> a"
    by (metis distinct.simps(2) last_in_set list.distinct(1))
  have ret: "retire_node (Some a)
               (s\<lparr>hazard_pointers := (hazard_pointers s)(i := Some a), head := Some b\<rparr>)
             = Inr s'"
    unfolding s'_def by (rule retire_node_hazarded [OF i]) simp
  show "dequeue_loop i r s
         = Some (Inr (True, (if r = None then None else Some (node_value (the (heap s b)))), s'))"
    apply (subst dequeue_loop.simps)
    using hd tl n m i ne ret
    apply (simp add: Let_def load_next_def load_value_def cas_head_def del: last.simps)
    done
  show "qabs s' (b # bs)"
    using inv m by (auto simp: qabs_def s'_def split: option.splits)
qed

lemma get_hazard_index_full:
  "\<not> slot_free t s \<Longrightarrow> get_hazard_index t s = Inl AssertionFailed"
  by (auto simp: slot_free_def get_hazard_index_def Let_def split: option.splits)

lemma get_hazard_index_slot:
  assumes "qabs s as" "slot_free t s"
  shows "\<exists>i s0. get_hazard_index t s = Inr (i, s0) \<and> i < MAX_THREADS \<and> qabs s0 as
           \<and> heap s0 = heap s \<and> head s0 = head s \<and> tail s0 = tail s \<and> brk s0 = brk s
           \<and> hazard_pointers s0 = hazard_pointers s \<and> idx s0 t = Some i"
proof (cases "idx s t")
  case None
  with assms show ?thesis
    by (auto simp: slot_free_def get_hazard_index_def Let_def qabs_def)
next
  case (Some i)
  with assms show ?thesis
    by (auto simp: slot_free_def get_hazard_index_def Let_def qabs_def)
qed

lemma reg_inv_mem: "reg_inv s R \<Longrightarrow> t \<in> R \<longleftrightarrow> idx s t \<noteq> None"
  unfolding reg_inv_def by blast

lemma get_hazard_index_reg:
  assumes "reg_inv s R" "get_hazard_index t s = Inr (i, s0)"
  shows "reg_inv s0 (insert t R)"
proof (cases "idx s t")
  case None
  with reg_inv_mem [OF assms(1), of t] have "t \<notin> R" by simp
  with assms None show ?thesis
    by (auto simp: reg_inv_def get_hazard_index_def Let_def split: if_splits)
next
  case (Some j)
  with reg_inv_mem [OF assms(1), of t] have "t \<in> R" by simp
  then have "insert t R = R" by auto
  with assms Some show ?thesis
    by (auto simp: get_hazard_index_def)
qed

lemma reg_inv_slot_free:
  assumes "reg_inv s R" "card (insert t R) \<le> MAX_THREADS"
  shows "slot_free t s"
proof (cases "idx s t")
  case None
  with reg_inv_mem [OF assms(1), of t] have "t \<notin> R" by simp
  moreover from assms have "finite R" "next_index s = card R" by (auto simp: reg_inv_def)
  ultimately have "t \<notin> R" "finite R" "next_index s = card R" by auto
  with assms(2) show ?thesis by (simp add: slot_free_def)
next
  case (Some j)
  then show ?thesis by (simp add: slot_free_def)
qed

lemma dequeue_qabs:
  assumes inv: "qabs s (a # as)" and slot: "slot_free t s"
  shows "\<exists>i s0. get_hazard_index t s = Inr (i, s0) \<and> i < MAX_THREADS \<and>
           (let s1 = s0\<lparr>hazard_pointers := (hazard_pointers s)(i := Some a)\<rparr> in
            case as of
              [] \<Rightarrow> dequeue t r s = Some (Inr (False, r, s1)) \<and> qabs s1 [a]
            | b # bs \<Rightarrow>
                dequeue t r s = Some (Inr (True,
                    (if r = None then None else Some (node_value (the (heap s b)))),
                    s1\<lparr>head := Some b\<rparr>))
                \<and> qabs (s1\<lparr>head := Some b\<rparr>) (b # bs))
           \<and> heap s0 = heap s"
proof -
  from get_hazard_index_slot [OF inv slot] obtain i s0 where
    g: "get_hazard_index t s = Inr (i, s0)" "i < MAX_THREADS" "qabs s0 (a # as)"
       "heap s0 = heap s" "hazard_pointers s0 = hazard_pointers s"
    by blast
  show ?thesis
  proof (cases as)
    case Nil
    with g dequeue_loop_empty [of s0 a i r] show ?thesis
      by (simp add: dequeue_def)
  next
    case (Cons b bs)
    with g dequeue_loop_nonempty(1) [of s0 a b bs i r]
      dequeue_loop_nonempty(2) [of s0 a b bs i] show ?thesis
      by (simp add: dequeue_def)
  qed
qed

text \<open>Every run of at most \<open>MAX_THREADS\<close> consumers answers as the first-in first-out queue.\<close>

lemma run_refines:
  "qabs s as \<Longrightarrow> reg_inv s R \<Longrightarrow> card (R \<union> set (callers cs)) \<le> MAX_THREADS \<Longrightarrow>
   \<exists>s' as'. run cs s = Some (Inr (fifo_spec cs (vals (heap s) (tl as)), s'))
      \<and> qabs s' as' \<and> reg_inv s' (R \<union> set (callers cs))"
proof (induction cs arbitrary: s as R)
  case Nil
  then show ?case by auto
next
  case (Cons c cs)
  show ?case
  proof (cases c)
    case (Enqueue v)
    from enqueue_qabs [OF Cons.prems(1), of v] obtain s1 where
      s1: "enqueue v s = Some (Inr s1)" "qabs s1 (as @ [brk s])"
          "vals (heap s1) (tl (as @ [brk s])) = vals (heap s) (tl as) @ [v]"
          "idx s1 = idx s" "next_index s1 = next_index s"
      by blast
    from Cons.prems(2) s1 have "reg_inv s1 R" by (simp add: reg_inv_def)
    from Cons.IH [OF s1(2) this] Cons.prems(3) Enqueue s1 show ?thesis by simp
  next
    case (Dequeue t result)
    from Cons.prems(1) obtain a rest where as: "as = a # rest"
      by (cases as) (auto simp: qabs_def)
    have fin: "finite (R \<union> set (callers (c # cs)))"
      using Cons.prems(2) by (simp add: reg_inv_def)
    have "card (insert t R) \<le> card (R \<union> set (callers (c # cs)))"
      using Dequeue by (intro card_mono [OF fin]) auto
    with Cons.prems(3) have "card (insert t R) \<le> MAX_THREADS" by simp
    from reg_inv_slot_free [OF Cons.prems(2) this] have slot: "slot_free t s" .
    from dequeue_qabs [OF Cons.prems(1) [unfolded as] slot, of result] obtain i s0 where
      d: "get_hazard_index t s = Inr (i, s0)" "heap s0 = heap s"
         "let s1 = s0\<lparr>hazard_pointers := (hazard_pointers s)(i := Some a)\<rparr> in
            case rest of
              [] \<Rightarrow> dequeue t result s = Some (Inr (False, result, s1)) \<and> qabs s1 [a]
            | b # bs \<Rightarrow>
                dequeue t result s = Some (Inr (True,
                    (if result = None then None else Some (node_value (the (heap s b)))),
                    s1\<lparr>head := Some b\<rparr>))
                \<and> qabs (s1\<lparr>head := Some b\<rparr>) (b # bs)"
      by blast
    from get_hazard_index_reg [OF Cons.prems(2) d(1)] have reg0: "reg_inv s0 (insert t R)" .
    have bound: "card (insert t R \<union> set (callers cs)) \<le> MAX_THREADS"
      using Cons.prems(3) Dequeue by simp
    have un: "insert t R \<union> set (callers cs) = R \<union> set (callers (c # cs))"
      using Dequeue by simp
    let ?s1 = "s0\<lparr>hazard_pointers := (hazard_pointers s)(i := Some a)\<rparr>"
    show ?thesis
    proof (cases rest)
      case Nil
      with d have r: "dequeue t result s = Some (Inr (False, result, ?s1))" "qabs ?s1 [a]"
        by (simp_all add: Let_def)
      have "reg_inv ?s1 (insert t R)" using reg0 by simp
      from Cons.IH [OF r(2) this bound] obtain s' as' where
        "run cs ?s1 = Some (Inr (fifo_spec cs [], s'))" "qabs s' as'"
        "reg_inv s' (insert t R \<union> set (callers cs))"
        by (auto simp: vals_def)
      with r Dequeue as Nil un show ?thesis by (auto simp: vals_def)
    next
      case (Cons b bs)
      let ?s2 = "?s1\<lparr>head := Some b\<rparr>"
      from Cons d have r: "dequeue t result s = Some (Inr (True,
                    (if result = None then None else Some (node_value (the (heap s b)))), ?s2))"
        "qabs ?s2 (b # bs)"
        by (simp_all add: Let_def)
      have "reg_inv ?s2 (insert t R)" using reg0 by simp
      from Cons.IH [OF r(2) this bound] obtain s' as' where
        "run cs ?s2 = Some (Inr (fifo_spec cs (vals (heap s) bs), s'))" "qabs s' as'"
        "reg_inv s' (insert t R \<union> set (callers cs))"
        using d(2) by (auto simp: vals_def)
      with r Dequeue as Cons un show ?thesis by (auto simp: vals_def)
    qed
  qed
qed

lemma run_from_start:
  assumes "card (set (callers cs)) \<le> MAX_THREADS"
  shows "\<exists>s as. run cs (LockFreeQueue d program_start) = Some (Inr (fifo_spec cs [], s))
           \<and> qabs s as \<and> reg_inv s (set (callers cs))"
  using run_refines [OF qabs_LockFreeQueue reg_inv_LockFreeQueue, of cs d] assms
  by (simp add: vals_def)





lemma callers_append: "callers (cs @ cs') = callers cs @ callers cs'"
  by (induction cs rule: callers.induct) auto





lemma after_run_dequeue:
  assumes "card (set (callers (cs @ [Dequeue t result]))) \<le> MAX_THREADS"
  shows "\<exists>s a as. run cs (LockFreeQueue d program_start) = Some (Inr (fifo_spec cs [], s))
           \<and> qabs s (a # as) \<and> slot_free t s"
proof -
  have sub: "set (callers cs) \<subseteq> set (callers (cs @ [Dequeue t result]))"
    by (auto simp: callers_append)
  then have "card (set (callers cs)) \<le> card (set (callers (cs @ [Dequeue t result])))"
    by (intro card_mono) auto
  with assms have "card (set (callers cs)) \<le> MAX_THREADS" by simp
  from run_from_start [OF this, of d] obtain s as where
    s: "run cs (LockFreeQueue d program_start) = Some (Inr (fifo_spec cs [], s))"
       "qabs s as" "reg_inv s (set (callers cs))" by blast
  from s(2) obtain a rest where "as = a # rest" by (cases as) (auto simp: qabs_def)
  moreover have "card (insert t (set (callers cs))) \<le> MAX_THREADS"
    using assms by (simp add: callers_append)
  from reg_inv_slot_free [OF s(3) this] have "slot_free t s" .
  ultimately show ?thesis using s by blast
qed




text \<open>
  The emptiness test also decides right when \<open>tail\<close> lags behind the last node, as it
  does between the two exchanges of an \<open>enqueue\<close>: with any \<open>tail\<close> on the chain from
  \<open>head\<close>, a \<open>dequeue\<close> that has a slot returns \<open>false\<close> exactly when \<open>head == tail\<close> and
  \<open>head->next == nullptr\<close>, helping \<open>tail\<close> forward first where it equals \<open>head\<close>.
\<close>

lemma dequeue_loop_lagging:
  assumes ch: "chain (heap s) (head s) as" and dist: "distinct as"
    and tl: "tail s = Some x" and x: "x \<in> set as" and i: "i < MAX_THREADS"
  shows "\<exists>r' s'. dequeue_loop i r s = Some (Inr (\<not> structurally_empty s, r', s'))"
proof (cases as)
  case Nil
  with x show ?thesis by simp
next
  case (Cons a rest)
  with ch obtain n where hd: "head s = Some a" and n: "heap s a = Some n"
    and rest: "chain (heap s) (node_next n) rest"
    by (auto split: option.splits)
  show ?thesis
  proof (cases rest)
    case Nil
    with Cons x tl rest hd n have e: "tail s = Some a" "node_next n = None" by auto
    with hd n have "structurally_empty s"
      by (simp add: structurally_empty_def load_next_def)
    moreover have "dequeue_loop i r s
        = Some (Inr (False, r, s\<lparr>hazard_pointers := (hazard_pointers s)(i := Some a)\<rparr>))"
      using hd e n i by (subst dequeue_loop.simps) (simp add: Let_def load_next_def)
    ultimately show ?thesis by simp
  next
    case (Cons b bs)
    with rest obtain m where nx: "node_next n = Some b" and m: "heap s b = Some m"
      by (auto split: option.splits)
    from hd n nx have ne: "\<not> structurally_empty s"
      by (simp add: structurally_empty_def load_next_def)
    from dist \<open>as = a # rest\<close> Cons have ab: "a \<noteq> b" by auto
    let ?s1 = "s\<lparr>hazard_pointers := (hazard_pointers s)(i := Some a)\<rparr>"
    have ret: "\<And>u. hazard_pointers u i = Some a \<Longrightarrow> retire_node (Some a) u = Inr u"
      by (rule retire_node_hazarded [OF i])
    have direct: "\<exists>r' s'. dequeue_loop i r u = Some (Inr (True, r', s'))"
      if "head u = Some a" "tail u = Some y" "y \<noteq> a" "heap u = heap s" for u y
      using that n nx m i
      by (subst dequeue_loop.simps)
         (simp add: Let_def load_next_def load_value_def cas_head_def ret)
    show ?thesis
    proof (cases "x = a")
      case False
      from direct [OF hd tl False refl] ne show ?thesis by simp
    next
      case True
      have "head (?s1\<lparr>tail := Some b\<rparr>) = Some a" "tail (?s1\<lparr>tail := Some b\<rparr>) = Some b"
        "b \<noteq> a" "heap (?s1\<lparr>tail := Some b\<rparr>) = heap s"
        using hd ab by simp_all
      from direct [OF this] obtain r' s' where
        "dequeue_loop i r (?s1\<lparr>tail := Some b\<rparr>) = Some (Inr (True, r', s'))" by blast
      moreover have "dequeue_loop i r s = dequeue_loop i r (?s1\<lparr>tail := Some b\<rparr>)"
        using hd tl True n nx i
        by (subst dequeue_loop.simps) (simp add: Let_def load_next_def cas_tail_def)
      ultimately show ?thesis using ne by simp
    qed
  qed
qed

lemma lagging_tail_example:
  "map_option (map_sum id fst)
     (dequeue 0 (Some 1) ((state_after [Enqueue 7] (LockFreeQueue (0::int) program_start))\<lparr>tail := Some 0\<rparr>))
   = Some (Inr True)
   \<and> \<not> structurally_empty
        ((state_after [Enqueue 7] (LockFreeQueue (0::int) program_start))\<lparr>tail := Some 0\<rparr>)"
  by code_simp

section \<open>The hazard slot after \<open>dequeue\<close>\<close>

text \<open>
  C3 at its failing inputs. Every return path of \<open>dequeue\<close> should clear the calling
  thread's slot, and none does: the only store to the table is the one that publishes
  \<open>first\<close>. Thread 0 gets slot 0; after its \<open>dequeue\<close> on the fresh queue returned
  \<open>false\<close>, and likewise after its \<open>dequeue\<close> that removed the value 7, slot 0 still
  holds the address 0 it published (the dummy node). On the second path the slot holds
  \<open>first\<close> while \<open>retire_node(first)\<close> scans the table.
\<close>

theorem dequeue_returns_with_slot_held:
  "slots_after [Dequeue 0 (Some 9)] (LockFreeQueue (0::int) program_start)
     = Some (Inr ([(False, Some 9)], Some 0 # replicate 15 None))
   \<and> slots_after [Enqueue 7, Dequeue 0 (Some 9)] (LockFreeQueue (0::int) program_start)
     = Some (Inr ([(True, Some 7)], Some 0 # replicate 15 None))"
  by code_simp

text \<open>
  The same in every run with enough slots: when \<open>dequeue\<close> returns, with Empty or with a
  value, the calling thread's slot holds the address of the node that was \<open>head\<close> when the
  call began, and no other slot has changed.
\<close>

lemma dequeue_leaves_slot_published:
  assumes "card (set (callers (cs @ [Dequeue t result]))) \<le> MAX_THREADS"
  shows "\<exists>outs s i s0 ok r s'.
           run cs (LockFreeQueue d program_start) = Some (Inr (outs, s))
           \<and> get_hazard_index t s = Inr (i, s0)
           \<and> dequeue t result s = Some (Inr (ok, r, s'))
           \<and> head s \<noteq> None \<and> hazard_pointers s' i = head s
           \<and> (\<forall>j. j \<noteq> i \<longrightarrow> hazard_pointers s' j = hazard_pointers s j)"
proof -
  from after_run_dequeue [OF assms, of d] obtain s a as where
    s: "run cs (LockFreeQueue d program_start) = Some (Inr (fifo_spec cs [], s))"
       "qabs s (a # as)" "slot_free t s" by blast
  from s(2) have hd: "head s = Some a" by (simp add: qabs_def)
  from dequeue_qabs [OF s(2) s(3), of result] obtain i s0 where
    g: "get_hazard_index t s = Inr (i, s0)"
    and d: "let s1 = s0\<lparr>hazard_pointers := (hazard_pointers s)(i := Some a)\<rparr> in
            case as of
              [] \<Rightarrow> dequeue t result s = Some (Inr (False, result, s1)) \<and> qabs s1 [a]
            | b # bs \<Rightarrow>
                dequeue t result s = Some (Inr (True,
                    (if result = None then None else Some (node_value (the (heap s b)))),
                    s1\<lparr>head := Some b\<rparr>))
                \<and> qabs (s1\<lparr>head := Some b\<rparr>) (b # bs)"
    by blast
  from d obtain ok r s' where
    "dequeue t result s = Some (Inr (ok, r, s'))"
    "hazard_pointers s' = (hazard_pointers s)(i := Some a)"
    by (cases as) (auto simp: Let_def)
  with s(1) g hd show ?thesis by (intro exI [of _ "fifo_spec cs []"] exI [of _ s] exI [of _ i] exI [of _ s0] exI [of _ ok] exI [of _ r] exI [of _ s']) simp
qed

lemma dequeue_leaves_slot_published_example:
  "card (set (callers ([Enqueue (5::int), Dequeue 1 None] @ [Dequeue 2 (Some 0)]))) \<le> MAX_THREADS
   \<and> (\<exists>outs s i s0 ok r s'.
           run [Enqueue 5, Dequeue 1 None] (LockFreeQueue (0::int) program_start) = Some (Inr (outs, s))
           \<and> get_hazard_index 2 s = Inr (i, s0)
           \<and> dequeue 2 (Some 0) s = Some (Inr (ok, r, s'))
           \<and> head s \<noteq> None \<and> hazard_pointers s' i = head s
           \<and> (\<forall>j. j \<noteq> i \<longrightarrow> hazard_pointers s' j = hazard_pointers s j))"
proof -
  have h: "card (set (callers ([Enqueue (5::int), Dequeue 1 None] @ [Dequeue 2 (Some 0)])))
            \<le> MAX_THREADS"
    by (simp add: MAX_THREADS_def)
  from h dequeue_leaves_slot_published [OF h, of 0] show ?thesis by blast
qed

section \<open>Retired nodes\<close>

text \<open>
  C4 at a failing input. Two values go in and both are removed by thread 0, whose third
  call and thread 1's call find the queue empty. The nodes at addresses 0 and 1 were
  retired; now \<open>head\<close> is node 2, the only two slots in use hold node 2, and nodes 0
  and 1 are still allocated: \<open>retire_node\<close> returned without freeing them and nothing
  remembers them.
\<close>

theorem retired_nodes_stay_allocated:
  "footprint_after [Enqueue 1, Enqueue 2, Dequeue 0 None, Dequeue 0 None, Dequeue 0 None, Dequeue 1 None]
     (LockFreeQueue (0::int) program_start)
   = Some (Inr ([0, 1, 2], Some 2, Some 2 # Some 2 # replicate 14 None))"
  by code_simp

text \<open>In general, no run frees any node: all addresses ever handed out stay allocated.\<close>

lemma nothing_is_freed:
  assumes "card (set (callers cs)) \<le> MAX_THREADS"
  shows "\<exists>outs s. run cs (LockFreeQueue d program_start) = Some (Inr (outs, s))
           \<and> allocated s = [0..<brk s]"
proof -
  from run_from_start [OF assms, of d] obtain s as where
    s: "run cs (LockFreeQueue d program_start) = Some (Inr (fifo_spec cs [], s))" "qabs s as"
    by blast
  from s(2) have "\<forall>a \<in> set [0..<brk s]. heap s a \<noteq> None" by (simp add: qabs_def)
  then have "allocated s = [0..<brk s]" unfolding allocated_def by (simp only: filter_True)
  with s(1) show ?thesis by blast
qed

section \<open>The pool keeps its partition\<close>

lemma pchain_frame: "a \<notin> set as \<Longrightarrow> pchain (h(a := x)) p as = pchain h p as"
  by (induction as arbitrary: p) (auto split: option.splits)

lemma free_nodes_from_pchain:
  "pchain (pool_nodes p) cur fl \<Longrightarrow> free_nodes_from cur seen p = Some (Inr (seen @ fl))"
proof (induction fl arbitrary: cur seen)
  case Nil
  then show ?case by (subst free_nodes_from.simps) simp
next
  case (Cons a fl)
  then show ?case
    by (subst free_nodes_from.simps) (auto split: option.splits)
qed

lemma count_from_pchain:
  "pchain (pool_nodes p) cur fl \<Longrightarrow> count_from cur k p = Some (Inr (k + length fl))"
proof (induction fl arbitrary: cur k)
  case Nil
  then show ?case by (subst count_from.simps) simp
next
  case (Cons a fl)
  then show ?case
    by (subst count_from.simps) (auto split: option.splits)
qed

lemma acquire_exhausted: "pool_head p = None \<Longrightarrow> acquire p = Inr (None, p)"
  unfolding acquire_def by (subst acquire_loop.simps) simp

lemma acquire_pinv:
  assumes "pinv n p out (a # fl)"
  shows "\<exists>p'. acquire p = Inr (Some a, p') \<and> pinv n p' (insert a out) fl"
proof -
  from assms obtain nx where nx: "pool_head p = Some a" "pool_nodes p a = Some nx"
     "pchain (pool_nodes p) nx fl"
    by (auto simp: pinv_def split: option.splits)
  let ?p = "p\<lparr>pool_head := nx,
              acquire_addresses := (if a \<notin> acquire_addresses p then insert a (acquire_addresses p)
                           else acquire_addresses p)\<rparr>"
  have "acquire p = Inr (Some a, ?p)"
    unfolding acquire_def using nx by (subst acquire_loop.simps) simp
  moreover have "pinv n ?p (insert a out) fl"
    using assms nx by (auto simp: pinv_def)
  ultimately show ?thesis by blast
qed

lemma release_live:
  assumes "pool_nodes p a \<noteq> None"
  shows "release a p = Inr (p\<lparr>pool_nodes := (pool_nodes p)(a \<mapsto> pool_head p), pool_head := Some a\<rparr>)"
  unfolding release_def using assms
  by (subst release_loop.simps) (auto simp: set_next_def)

lemma release_pinv:
  assumes "pinv n p out fl" "a \<in> out"
  shows "\<exists>p'. release a p = Inr p' \<and> pinv n p' (out - {a}) (a # fl)"
proof -
  from assms have a: "a < n" "a \<notin> set fl" "pool_nodes p a \<noteq> None"
    by (auto simp: pinv_def)
  let ?p = "p\<lparr>pool_nodes := (pool_nodes p)(a \<mapsto> pool_head p), pool_head := Some a\<rparr>"
  have "pchain (pool_nodes ?p) (pool_head p) fl"
    using assms a by (simp add: pinv_def pchain_frame)
  then have "pinv n ?p (out - {a}) (a # fl)"
    using assms a by (auto simp: pinv_def)
  with release_live [OF a(3)] show ?thesis by simp
qed

lemma pool_run_pinv:
  "pinv n p out fl \<Longrightarrow>
   pool_run cs (p, out) = Inl ContractViolation
   \<or> (\<exists>p' out' fl'. pool_run cs (p, out) = Inr (p', out') \<and> pinv n p' out' fl')"
proof (induction cs arbitrary: p out fl)
  case Nil
  then show ?case by auto
next
  case (Cons c cs)
  show ?case
  proof (cases c)
    case Acquire
    show ?thesis
    proof (cases fl)
      case Nil
      with Cons.prems have "pool_head p = None" by (simp add: pinv_def)
      from acquire_exhausted [OF this] Cons.IH [OF Cons.prems] Acquire show ?thesis by simp
    next
      case (Cons a fl')
      from acquire_pinv [OF Cons.prems [unfolded Cons]] obtain p' where
        "acquire p = Inr (Some a, p')" "pinv n p' (insert a out) fl'" by blast
      with Cons.IH [OF this(2)] Acquire show ?thesis by simp
    qed
  next
    case (Release a)
    show ?thesis
    proof (cases "a \<in> out")
      case False
      with Release show ?thesis by simp
    next
      case True
      from release_pinv [OF Cons.prems True] obtain p' where
        "release a p = Inr p'" "pinv n p' (out - {a}) (a # fl)" by blast
      with Cons.IH [OF this(2)] Release True show ?thesis by simp
    qed
  qed
qed

lemma make_nodes_result:
  "i \<le> n \<Longrightarrow> length (pool_storage p) = n \<Longrightarrow>
   \<exists>p'. make_nodes i n p = Inr p'
      \<and> pool_storage p' = take i (pool_storage p) @ map Some [i..<n]
      \<and> (\<forall>a. pool_nodes p' a = (if i \<le> a \<and> a < n then Some None else pool_nodes p a))
      \<and> pool_head p' = pool_head p \<and> acquire_addresses p' = acquire_addresses p"
proof (induction i n p rule: make_nodes.induct)
  case (1 i n p)
  show ?case
  proof (cases "i < n")
    case False
    with "1.prems" show ?thesis
      by (subst make_nodes.simps) auto
  next
    case True
    let ?p = "p\<lparr>pool_storage := (pool_storage p)[i := Some i],
                 pool_nodes := (pool_nodes p)(i \<mapsto> None)\<rparr>"
    from True "1.prems" have "i + 1 \<le> n" "length (pool_storage ?p) = n" "i < length (pool_storage p)"
      by simp_all
    from "1.IH" [OF True this(3) this(1) this(2)] obtain p' where
      p': "make_nodes (i + 1) n ?p = Inr p'"
          "pool_storage p' = take (i + 1) (pool_storage ?p) @ map Some [i + 1..<n]"
          "\<forall>a. pool_nodes p' a = (if i + 1 \<le> a \<and> a < n then Some None else pool_nodes ?p a)"
          "pool_head p' = pool_head ?p" "acquire_addresses p' = acquire_addresses ?p"
      by blast
    have "take (i + 1) ((pool_storage p)[i := Some i]) = take i (pool_storage p) @ [Some i]"
      using \<open>i < length (pool_storage p)\<close> by (simp add: take_Suc_conv_app_nth)
    moreover have "[i..<n] = i # [i + 1..<n]"
      using True by (simp add: upt_conv_Cons)
    ultimately have st: "pool_storage p' = take i (pool_storage p) @ map Some [i..<n]"
      using p'(2) by simp
    have nd: "\<forall>a. pool_nodes p' a = (if i \<le> a \<and> a < n then Some None else pool_nodes p a)"
      using p'(3) True by auto
    show ?thesis
      using True "1.prems" p' st nd
      by (subst make_nodes.simps) simp
  qed
qed

lemma link_nodes_result:
  "i \<le> n - 1 \<Longrightarrow> 0 < n \<Longrightarrow> pool_storage p = map Some [0..<n] \<Longrightarrow>
   \<forall>a<n. pool_nodes p a \<noteq> None \<Longrightarrow>
   \<exists>p'. link_nodes i (n - 1) p = Inr p'
      \<and> pool_storage p' = pool_storage p
      \<and> (\<forall>a. pool_nodes p' a = (if i \<le> a \<and> a < n - 1 then Some (Some (a + 1)) else pool_nodes p a))
      \<and> pool_head p' = pool_head p \<and> acquire_addresses p' = acquire_addresses p"
proof (induction i "n - 1" p rule: link_nodes.induct)
  case (1 i p)
  show ?case
  proof (cases "i < n - 1")
    case False
    with "1.prems" show ?thesis
      by (subst link_nodes.simps) auto
  next
    case True
    let ?p = "p\<lparr>pool_nodes := (pool_nodes p)(i \<mapsto> Some (i + 1))\<rparr>"
    from True "1.prems" have v1: "vec_at (pool_storage p) (i + 1) = Inr (Some (i + 1))"
      and v0: "vec_at (pool_storage p) i = Inr (Some i)"
      by (simp_all add: vec_at_def)
    from True "1.prems" have "pool_nodes p i \<noteq> None" by simp
    then have sn: "set_next (Some i) (Some (i + 1)) p = Inr ?p"
      by (auto simp: set_next_def)
    have pre: "i + 1 \<le> n - 1" "pool_storage ?p = map Some [0..<n]" "\<forall>a<n. pool_nodes ?p a \<noteq> None"
      using True "1.prems" by simp_all
    from "1.hyps" [OF True v1 v0 sn pre(1) \<open>0 < n\<close> pre(2) pre(3)] obtain p' where
      p': "link_nodes (i + 1) (n - 1) ?p = Inr p'"
          "pool_storage p' = pool_storage ?p"
          "\<forall>a. pool_nodes p' a = (if i + 1 \<le> a \<and> a < n - 1 then Some (Some (a + 1)) else pool_nodes ?p a)"
          "pool_head p' = pool_head ?p" "acquire_addresses p' = acquire_addresses ?p"
      by blast
    have nd: "\<forall>a. pool_nodes p' a = (if i \<le> a \<and> a < n - 1 then Some (Some (a + 1)) else pool_nodes p a)"
      using p'(3) True by auto
    show ?thesis
      using True v1 v0 sn p' nd
      by (subst link_nodes.simps) simp
  qed
qed

lemma size_t_sub_one:
  assumes "0 < n" "n < size_t_mod"
  shows "size_t_sub n 1 = n - 1"
proof -
  have "(1::nat) mod size_t_mod = 1" by (simp add: size_t_mod_def)
  then have "size_t_sub n 1 = (n + size_t_mod - 1) mod size_t_mod"
    by (simp only: size_t_sub_def)
  also have "n + size_t_mod - 1 = (n - 1) + size_t_mod" using assms by simp
  also have "((n - 1) + size_t_mod) mod size_t_mod = n - 1"
  proof -
    have "n - 1 < size_t_mod" using assms by simp
    then show ?thesis by (simp only: mod_add_self2 mod_less)
  qed
  finally show ?thesis .
qed

lemma pchain_upt:
  "i < n \<Longrightarrow> \<forall>a. h a = (if a < n - 1 then Some (Some (a + 1)) else if a = n - 1 then Some None else None)
   \<Longrightarrow> pchain h (Some i) [i..<n]"
proof (induction "n - i" arbitrary: i)
  case 0
  then show ?case by simp
next
  case (Suc k)
  show ?case
  proof (cases "i + 1 < n")
    case False
    with Suc.prems have "i = n - 1" "[i..<n] = [i]" by (auto simp: upt_conv_Cons)
    with Suc.prems show ?thesis by simp
  next
    case True
    from Suc.hyps(2) have "k = n - (i + 1)" by simp
    from Suc.hyps(1) [OF this True Suc.prems(2)]
    have "pchain h (Some (i + 1)) [i + 1..<n]" .
    moreover have "[i..<n] = i # [i + 1..<n]" using Suc.prems by (simp add: upt_conv_Cons)
    moreover have "i < n - 1" using True by arith
    then have "h i = Some (Some (i + 1))" using Suc.prems(2) by simp
    ultimately show ?thesis by simp
  qed
qed

lemma LockFreeObjectPool_pinv:
  assumes "0 < n" "n < size_t_mod"
  shows "\<exists>p. LockFreeObjectPool n = Inr p \<and> pinv n p {} [0..<n]"
proof -
  let ?p0 = "\<lparr>pool_storage = replicate n None, pool_nodes = (\<lambda>_. None),
                 pool_head = None, acquire_addresses = {}\<rparr>"
  from make_nodes_result [of 0 n ?p0] obtain p1 where
    p1: "make_nodes 0 n ?p0 = Inr p1" "pool_storage p1 = map Some [0..<n]"
        "\<forall>a. pool_nodes p1 a = (if a < n then Some None else None)"
        "pool_head p1 = None" "acquire_addresses p1 = {}"
    by auto
  from link_nodes_result [of 0 n p1] assms p1 obtain p2 where
    p2: "link_nodes 0 (n - 1) p1 = Inr p2" "pool_storage p2 = map Some [0..<n]"
        "\<forall>a. pool_nodes p2 a = (if a < n - 1 then Some (Some (a + 1)) else pool_nodes p1 a)"
    by auto
  have v: "vec_at (pool_storage p2) (n - 1) = Inr (Some (n - 1))"
    using assms p2 by (simp add: vec_at_def)
  define p3 where "p3 = p2\<lparr>pool_nodes := (pool_nodes p2)(n - 1 \<mapsto> None)\<rparr>"
  have sn: "set_next (Some (n - 1)) None p2 = Inr p3"
    using assms p1 p2 by (simp add: set_next_def p3_def)
  have v0: "vec_at (pool_storage p3) 0 = Inr (Some 0)"
    using assms p2 by (simp add: vec_at_def upt_conv_Cons p3_def)
  define p where "p = p3\<lparr>pool_head := Some 0\<rparr>"
  have run: "LockFreeObjectPool n = Inr p"
    unfolding LockFreeObjectPool_def Let_def size_t_sub_one [OF assms] p_def
    by (simp only: p1(1) p2(1) v sn v0 sum.case)
  have nodes: "\<forall>a. pool_nodes p a
      = (if a < n - 1 then Some (Some (a + 1)) else if a = n - 1 then Some None else None)"
    using p1 p2 assms by (auto simp: p_def p3_def)
  from pchain_upt [OF assms(1) nodes] have "pchain (pool_nodes p) (Some 0) [0..<n]" .
  moreover have "pool_head p = Some 0" "pool_storage p = map Some [0..<n]"
    using p2 by (simp_all add: p_def p3_def)
  moreover have "\<forall>a<n. pool_nodes p a \<noteq> None"
  proof (intro allI impI)
    fix a assume "a < n"
    then have "a < n - 1 \<or> a = n - 1" by arith
    with nodes show "pool_nodes p a \<noteq> None" by auto
  qed
  ultimately have "pinv n p {} [0..<n]"
    by (simp add: pinv_def)
  with run show ?thesis by blast
qed

lemma arena_pinv: "pinv n p out fl \<Longrightarrow> arena p = {0..<n}"
  by (auto simp: pinv_def arena_def)

text \<open>
  While calls do not overlap the partition holds. On a new pool of any capacity \<open>n\<close> (a
  positive \<open>size_t\<close>), after every sequence of \<open>acquire\<close> calls and of \<open>release\<close> calls on
  handles that are checked out, each run to completion, the nodes reachable from \<open>head_\<close>
  along \<open>next\<close> (each reached once) and the checked-out nodes are disjoint, and together
  they are exactly the \<open>n\<close> nodes of the arena.
\<close>

lemma pool_partition_sequential:
  assumes "0 < n" "n < size_t_mod"
  shows "\<exists>p0. LockFreeObjectPool n = Inr p0
           \<and> (pool_run cs (p0, {}) = Inl ContractViolation
              \<or> (\<exists>p out fl. pool_run cs (p0, {}) = Inr (p, out)
                    \<and> free_nodes p = Some (Inr fl) \<and> distinct fl
                    \<and> set fl \<inter> out = {} \<and> set fl \<union> out = arena p \<and> card (arena p) = n))"
proof -
  from LockFreeObjectPool_pinv [OF assms] obtain p0 where
    p0: "LockFreeObjectPool n = Inr p0" "pinv n p0 {} [0..<n]" by blast
  from pool_run_pinv [OF p0(2), of cs] show ?thesis
  proof
    assume "pool_run cs (p0, {}) = Inl ContractViolation"
    with p0 show ?thesis by blast
  next
    assume "\<exists>p' out' fl'. pool_run cs (p0, {}) = Inr (p', out') \<and> pinv n p' out' fl'"
    then obtain p out fl where r: "pool_run cs (p0, {}) = Inr (p, out)" "pinv n p out fl"
      by blast
    from r(2) have "free_nodes p = Some (Inr fl)"
      unfolding free_nodes_def using free_nodes_from_pchain [of p "pool_head p" fl "[]"]
      by (simp add: pinv_def)
    moreover from r(2) have "distinct fl" "set fl \<inter> out = {}" "set fl \<union> out = arena p"
      "card (arena p) = n"
      using arena_pinv [OF r(2)] by (simp_all add: pinv_def)
    ultimately show ?thesis using p0 r by blast
  qed
qed

lemma pool3_run:
  "case LockFreeObjectPool 3 of Inl e \<Rightarrow> False
   | Inr p0 \<Rightarrow> pool_run [Acquire, Acquire, Release 0, Acquire] (p0, {}) \<noteq> Inl ContractViolation"
  by (simp add: LockFreeObjectPool_def make_nodes.simps link_nodes.simps acquire_def
      acquire_loop.simps release_def release_loop.simps set_next_def vec_at_def size_t_sub_def
      size_t_mod_def Let_def numeral_3_eq_3)

lemma pool_partition_sequential_example:
  "0 < (3::nat) \<and> 3 < size_t_mod
   \<and> (\<exists>p0 p out fl. LockFreeObjectPool 3 = Inr p0
         \<and> pool_run [Acquire, Acquire, Release 0, Acquire] (p0, {}) = Inr (p, out)
         \<and> free_nodes p = Some (Inr fl) \<and> distinct fl
         \<and> set fl \<inter> out = {} \<and> set fl \<union> out = arena p \<and> card (arena p) = 3)"
proof -
  have h: "0 < (3::nat)" "3 < size_t_mod" by (simp_all add: size_t_mod_def)
  let ?cs = "[Acquire, Acquire, Release 0, Acquire]"
  from pool_partition_sequential [OF h, of ?cs] obtain p0 where
    p0: "LockFreeObjectPool 3 = Inr p0"
    and alt: "pool_run ?cs (p0, {}) = Inl ContractViolation
              \<or> (\<exists>p out fl. pool_run ?cs (p0, {}) = Inr (p, out)
                    \<and> free_nodes p = Some (Inr fl) \<and> distinct fl
                    \<and> set fl \<inter> out = {} \<and> set fl \<union> out = arena p \<and> card (arena p) = 3)"
    by blast
  from pool3_run have "pool_run ?cs (p0, {}) \<noteq> Inl ContractViolation"
    by (simp add: p0)
  with alt have "\<exists>p out fl. pool_run ?cs (p0, {}) = Inr (p, out)
                    \<and> free_nodes p = Some (Inr fl) \<and> distinct fl
                    \<and> set fl \<inter> out = {} \<and> set fl \<union> out = arena p \<and> card (arena p) = 3"
    by blast
  with p0 h show ?thesis by blast
qed

text \<open>
  C5 at a failing input. The partition is to hold for interleaved calls of several
  threads, and an \<open>acquire\<close> that is overtaken between its read of \<open>node->next\<close> and its
  exchange breaks it. On a pool of capacity 3, thread A reads \<open>node\<close> = node 0 and \<open>next\<close> =
  node 1; thread B acquires node 0, acquires node 1 and releases node 0, which makes
  node 0 the head again; thread A's exchange then succeeds and stores the stale \<open>next\<close>.
  A holds node 0, B holds node 1, and the free list is node 1, node 2: node 1 is checked
  out and reachable from \<open>head_\<close> at once.
\<close>

theorem stale_exchange_breaks_partition:
  "interleaved_acquire 3 [Acquire, Acquire, Release 0] = Inr (Some 0, Some (Inr [1, 2]), {1})"
  by (simp add: interleaved_acquire_def LockFreeObjectPool_def make_nodes.simps link_nodes.simps
      vec_at_def size_t_sub_def size_t_mod_def Let_def numeral_3_eq_3
      acquire_read_def acquire_cas_def acquire_def acquire_loop.simps release_def
      release_loop.simps set_next_def free_nodes_def free_nodes_from.simps insert_Diff_if)

text \<open>Run without another thread in between, the two steps are \<open>acquire\<close>.\<close>

lemma acquire_in_two_steps:
  "acquire p = (case acquire_read p of Inl e \<Rightarrow> Inl e | Inr (node, next) \<Rightarrow> acquire_cas node next p)"
  unfolding acquire_def acquire_read_def acquire_cas_def
  by (subst acquire_loop.simps) (simp split: option.splits)

text \<open>
  C10. The free list is last-in first-out: \<open>release\<close> of a node of the pool makes it the
  new \<open>head_\<close>, and the \<open>acquire\<close> that follows returns exactly that node and restores
  the \<open>head_\<close> from before the \<open>release\<close>.
\<close>

theorem pool_lifo:
  assumes "pool_nodes p k \<noteq> None"
  shows "\<exists>p' p''. release k p = Inr p' \<and> pool_head p' = Some k
           \<and> acquire p' = Inr (Some k, p'') \<and> pool_head p'' = pool_head p"
proof -
  let ?p = "p\<lparr>pool_nodes := (pool_nodes p)(k \<mapsto> pool_head p), pool_head := Some k\<rparr>"
  have "acquire ?p = Inr (Some k, ?p\<lparr>pool_head := pool_head p,
          acquire_addresses := (if k \<notin> acquire_addresses ?p then insert k (acquire_addresses ?p)
                           else acquire_addresses ?p)\<rparr>)"
    unfolding acquire_def by (subst acquire_loop.simps) simp
  with release_live [OF assms] show ?thesis by simp
qed

text \<open>
  C8 at the failing input. With capacity 0 the vector is empty and the bound \<open>size - 1\<close> of
  the linking loop wraps to the largest \<open>size_t\<close>, so the loop body runs and indexes the
  empty vector.
\<close>

theorem LockFreeObjectPool_zero_out_of_range: "LockFreeObjectPool 0 = Inl OutOfRange"
  by (simp add: LockFreeObjectPool_def make_nodes.simps link_nodes.simps size_t_sub_def
      size_t_mod_def vec_at_def)

section \<open>Exhaustion and emptiness\<close>

lemma get_hazard_index_frame:
  "get_hazard_index t s = Inr (i, s0) \<Longrightarrow>
   heap s0 = heap s \<and> head s0 = head s \<and> tail s0 = tail s
   \<and> hazard_pointers s0 = hazard_pointers s"
  by (auto simp: get_hazard_index_def Let_def split: option.splits if_splits)

lemma load_next_hazard [simp]: "load_next (s\<lparr>hazard_pointers := f\<rparr>) p = load_next s p"
  by (simp add: load_next_def split: option.splits)

lemma allocate_exhausted: "lfp_head p = None \<Longrightarrow> allocate p = Inl BadAlloc"
  unfolding allocate_def by (subst allocate_loop.simps) simp

lemma allocate_block:
  "lfp_head p = Some b \<Longrightarrow> b + sizeof_Node \<le> lfp_bytes p \<Longrightarrow>
   allocate p = Inr (b, p\<lparr>lfp_head := lfp_buffer p b\<rparr>)"
  unfolding allocate_def by (subst allocate_loop.simps) (simp add: fetch_next_def)

text \<open>
  C6 as stated fails for \<open>dequeue\<close> once the table of \<open>MAX_THREADS\<close> slots is used up.
  Threads 0 to 15 each call \<open>dequeue\<close> on the new, empty queue and get Empty; the
  \<open>dequeue\<close> of a seventeenth thread on the still empty queue does not return Empty, the
  \<open>assert\<close> of \<open>get_hazard_index\<close> stops it.
\<close>

theorem empty_dequeue_without_slot_counterexample:
  "map_option (map_sum id fst)
     (run [Dequeue 0 None, Dequeue 1 None, Dequeue 2 None, Dequeue 3 None, Dequeue 4 None,
           Dequeue 5 None, Dequeue 6 None, Dequeue 7 None, Dequeue 8 None, Dequeue 9 None,
           Dequeue 10 None, Dequeue 11 None, Dequeue 12 None, Dequeue 13 None, Dequeue 14 None,
           Dequeue 15 None] (LockFreeQueue (0::int) program_start))
   = Some (Inr (replicate 16 (False, None)))
   \<and> map_option (map_sum id fst)
     (run [Dequeue 0 None, Dequeue 1 None, Dequeue 2 None, Dequeue 3 None, Dequeue 4 None,
           Dequeue 5 None, Dequeue 6 None, Dequeue 7 None, Dequeue 8 None, Dequeue 9 None,
           Dequeue 10 None, Dequeue 11 None, Dequeue 12 None, Dequeue 13 None, Dequeue 14 None,
           Dequeue 15 None, Dequeue 16 None] (LockFreeQueue (0::int) program_start))
   = Some (Inl AssertionFailed)"
  by code_simp

text \<open>
  C6 amended. Exhaustion and emptiness are ordinary results, returned at once. \<open>acquire\<close>
  on a pool whose free list is empty returns the null handle and leaves the pool as it
  was; and \<open>dequeue\<close> on a queue with \<open>head == tail\<close> and \<open>head->next == nullptr\<close>, when
  the calling thread's \<open>get_hazard_index\<close> returns a slot index below \<open>MAX_THREADS\<close>,
  returns \<open>false\<close> in its first iteration, the variable behind \<open>result\<close> untouched.
  Neither result is a fault.
\<close>

theorem exhausted_and_empty_are_results:
  "(pool_head p = None \<longrightarrow> acquire p = Inr (None, p))
   \<and> (structurally_empty s \<and> get_hazard_index t s = Inr (i, s0) \<and> i < MAX_THREADS
        \<longrightarrow> dequeue t result s
            = Some (Inr (False, result,
                         s0\<lparr>hazard_pointers := (hazard_pointers s0)(i := head s0)\<rparr>)))"
proof (intro conjI impI)
  assume "pool_head p = None"
  then show "acquire p = Inr (None, p)" by (rule acquire_exhausted)
next
  assume a: "structurally_empty s \<and> get_hazard_index t s = Inr (i, s0) \<and> i < MAX_THREADS"
  then have f: "heap s0 = heap s" "head s0 = head s" "tail s0 = tail s"
    using get_hazard_index_frame [of t s i s0] by simp_all
  have "load_next s0 (head s0) = load_next s (head s)"
    by (simp add: load_next_def f split: option.splits)
  moreover from a have "structurally_empty s" by blast
  then have "head s = tail s" "load_next s (head s) = Inr None"
    unfolding structurally_empty_def by blast+
  ultimately have "head s0 = tail s0" "load_next s0 (head s0) = Inr None"
    using f by auto
  then have "dequeue_loop i result s0
      = Some (Inr (False, result, s0\<lparr>hazard_pointers := (hazard_pointers s0)(i := head s0)\<rparr>))"
    using a by (subst dequeue_loop.simps) (simp add: Let_def)
  with a show "dequeue t result s
      = Some (Inr (False, result, s0\<lparr>hazard_pointers := (hazard_pointers s0)(i := head s0)\<rparr>))"
    by (simp add: dequeue_def)
qed

lemma pool1_exhausted: "pool_head (pool_after 1 [Acquire]) = None"
  by (simp add: pool_after_def LockFreeObjectPool_def make_nodes.simps link_nodes.simps
      acquire_def acquire_loop.simps set_next_def vec_at_def size_t_sub_def size_t_mod_def Let_def)

lemma fresh_queue_empty:
  "structurally_empty (LockFreeQueue d program_start)"
  "get_hazard_index t (LockFreeQueue d program_start)
     = Inr (0, (LockFreeQueue d program_start)\<lparr>next_index := 1, idx := (\<lambda>_. None)(t := Some 0)\<rparr>)"
  by (simp_all add: structurally_empty_def LockFreeQueue_def new_Node_def program_start_def
      load_next_def get_hazard_index_def MAX_THREADS_def)

theorem exhausted_and_empty_are_results_witness:
  "pool_head (pool_after 1 [Acquire]) = None
   \<and> acquire (pool_after 1 [Acquire]) = Inr (None, pool_after 1 [Acquire])
   \<and> structurally_empty (LockFreeQueue (0::int) program_start)
   \<and> 0 < MAX_THREADS
   \<and> (\<exists>s'. dequeue 4 (Some 1) (LockFreeQueue (0::int) program_start)
              = Some (Inr (False, Some 1, s')))"
  using exhausted_and_empty_are_results [of "pool_after 1 [Acquire]"
      "LockFreeQueue (0::int) program_start" 4 0
      "(LockFreeQueue (0::int) program_start)\<lparr>next_index := 1, idx := (\<lambda>_. None)(4 := Some 0)\<rparr>"
      "Some 1"]
    pool1_exhausted fresh_queue_empty(1) [where d = "0::int"]
    fresh_queue_empty(2) [where d = "0::int" and t = 4]
  by (simp add: MAX_THREADS_def)

text \<open>
  C7. The block allocator fails hard: \<open>allocate\<close> throws \<open>std::bad_alloc\<close> when the free
  list is empty, and when it is not, returns the block at its head (a block inside the
  buffer) and makes that block's \<open>next\<close> the new head.
\<close>

theorem allocate_block_or_bad_alloc:
  "(lfp_head p = None \<longrightarrow> allocate p = Inl BadAlloc)
   \<and> (lfp_head p = Some b \<and> b + sizeof_Node \<le> lfp_bytes p
        \<longrightarrow> allocate p = Inr (b, p\<lparr>lfp_head := lfp_buffer p b\<rparr>))"
  using allocate_exhausted allocate_block by blast

section \<open>Concrete runs\<close>

lemma allocator_4_2:
  "LockFreePool 4 2
   = Inr \<lparr>lfp_head = Some 8, lfp_buffer = (\<lambda>_. None)(0 := None, 8 := Some 0), lfp_bytes = 16,
          lfp_blockSize = 8, lfp_capacity = 2\<rparr>"
  by (simp add: LockFreePool_def link_blocks.simps store_next_def sizeof_Node_def size_t_mod_def
      Let_def)

lemma allocate_times_2: "allocate_times 2 p = allocate_times (Suc (Suc 0)) p"
  by (simp add: numeral_2_eq_2)

lemma allocator_4_2_drained:
  "map_sum id fst (allocate_times 2 (projr (LockFreePool 4 2))) = Inr [8, 0]"
  "lfp_head (snd (projr (allocate_times 2 (projr (LockFreePool 4 2))))) = None"
  by (simp_all add: allocate_times_2 allocator_4_2 allocate_def allocate_loop.simps fetch_next_def
      sizeof_Node_def)

theorem allocate_block_or_bad_alloc_witness:
  "lfp_head (snd (projr (allocate_times 2 (projr (LockFreePool 4 2))))) = None
   \<and> allocate (snd (projr (allocate_times 2 (projr (LockFreePool 4 2))))) = Inl BadAlloc
   \<and> lfp_head (projr (LockFreePool 4 2)) = Some 8
   \<and> 8 + sizeof_Node \<le> lfp_bytes (projr (LockFreePool 4 2))
   \<and> allocate (projr (LockFreePool 4 2))
       = Inr (8, (projr (LockFreePool 4 2))\<lparr>lfp_head := Some 0\<rparr>)"
  using allocate_block_or_bad_alloc [of "snd (projr (allocate_times 2 (projr (LockFreePool 4 2))))"]
    allocate_block_or_bad_alloc [of "projr (LockFreePool 4 2)" 8]
    allocator_4_2_drained(2)
  by (simp add: allocator_4_2 sizeof_Node_def)

lemma pool_of_2:
  "LockFreeObjectPool 2
   = Inr \<lparr>pool_storage = [Some 0, Some 1], pool_nodes = (\<lambda>_. None)(0 \<mapsto> Some 1, 1 \<mapsto> None),
          pool_head = Some 0, acquire_addresses = {}\<rparr>"
proof -
  have "replicate 2 None = [None, None :: addr option]" by (simp add: numeral_2_eq_2)
  then show ?thesis
    by (simp add: LockFreeObjectPool_def make_nodes.simps link_nodes.simps set_next_def
        vec_at_def size_t_sub_def size_t_mod_def Let_def fun_upd_twist)
qed

lemma pool2_acquired:
  "pool_nodes (pool_after 2 [Acquire]) 0 \<noteq> None"
  "pool_head (pool_after 2 [Acquire]) = Some 1"
  by (simp_all add: pool_after_def pool_of_2 acquire_def acquire_loop.simps)

theorem pool_lifo_witness:
  "pool_nodes (pool_after 2 [Acquire]) 0 \<noteq> None
   \<and> (\<exists>p' p''. release 0 (pool_after 2 [Acquire]) = Inr p' \<and> pool_head p' = Some 0
         \<and> acquire p' = Inr (Some 0, p'') \<and> pool_head p'' = Some 1)"
  using pool_lifo [of "pool_after 2 [Acquire]" 0] pool2_acquired by simp

lemma hazarded_example:
  "\<exists>j<MAX_THREADS.
      hazard_pointers ((LockFreeQueue (0::int) program_start)\<lparr>hazard_pointers := (\<lambda>_. None)(3 := Some 0)\<rparr>) j
      = Some 0"
  by (rule exI [of _ 3]) (simp add: MAX_THREADS_def)

lemma unhazarded_example:
  "\<not> (\<exists>j<MAX_THREADS. hazard_pointers (LockFreeQueue (0::int) program_start) j = Some 0)"
  by (simp add: LockFreeQueue_def new_Node_def program_start_def)

theorem retire_node_frees_only_unhazarded_witness:
  "retire_node (Some 0)
     ((LockFreeQueue (0::int) program_start)\<lparr>hazard_pointers := (\<lambda>_. None)(3 := Some 0)\<rparr>)
   = Inr ((LockFreeQueue (0::int) program_start)\<lparr>hazard_pointers := (\<lambda>_. None)(3 := Some 0)\<rparr>)
   \<and> retire_node (Some 0) (LockFreeQueue (0::int) program_start)
     = delete_node (Some 0) (LockFreeQueue (0::int) program_start)
   \<and> map_sum id allocated (retire_node (Some 0) (LockFreeQueue (0::int) program_start)) = Inr []"
  using retire_node_frees_only_unhazarded [of "Some 0"
      "(LockFreeQueue (0::int) program_start)\<lparr>hazard_pointers := (\<lambda>_. None)(3 := Some 0)\<rparr>"]
    retire_node_frees_only_unhazarded [of "Some 0" "LockFreeQueue (0::int) program_start"]
    hazarded_example unhazarded_example
  by (simp add: delete_node_def allocated_def LockFreeQueue_def new_Node_def program_start_def)

end
